theory Spec2Isabelle
  imports Complex_Main "HOL-Library.Sublist"
begin

section \<open>Keitai\_UCPDisplay: a viewer for the images packed in .ucp archives\<close>

text \<open>
  The development embeds \<^verbatim>\<open>Keitai_UCPDisplay.py\<close>: the class \<^verbatim>\<open>UCPViewer\<close> and the
  script's entry point. The Tk widgets are reduced to the data the program reads back from
  them (the listbox items, the listbox selection, the image of the label, the size of the
  right frame); the zip reader, the image decoder, the file dialog and the directory walk
  are parameters of the model, collected in the record \<open>world\<close>. Every exception the
  code lets escape is a value of \<open>py_error\<close>; an operation returns the exception it
  raised (if any) together with the state it left behind, because Python keeps the
  assignments made before a raise.
\<close>

subsection \<open>Exceptions\<close>

datatype py_error =
    BadZipFile
  | FileNotFoundError
  | KeyError
  | UnidentifiedImageError
  | ZeroDivisionError
  | OverflowError
  | IndexError
  | NotImplementedError
  | IsADirectoryError

subsection \<open>Strings and paths\<close>

text \<open>
  \<^verbatim>\<open>str.lower\<close> restricted to what the suffix tests can observe: the ASCII capitals are
  mapped to their small letters, every other character is kept. (No character outside
  ASCII lowers to one of the letters of \<^verbatim>\<open>.jpg .jpeg .gif .png .ucp\<close>.)
\<close>

definition lower_char :: "char \<Rightarrow> char" where
  "lower_char c =
     (case map_of (zip ''ABCDEFGHIJKLMNOPQRSTUVWXYZ'' ''abcdefghijklmnopqrstuvwxyz'') c of
        Some d \<Rightarrow> d
      | None \<Rightarrow> c)"

definition lower :: "string \<Rightarrow> string" where
  "lower s = map lower_char s"

text \<open>\<^verbatim>\<open>s.endswith(suf)\<close> for one suffix, and for a tuple of suffixes.\<close>

definition endswith :: "string \<Rightarrow> string \<Rightarrow> bool" where
  "endswith s suf = (length suf \<le> length s \<and> drop (length s - length suf) s = suf)"

definition endswith_any :: "string \<Rightarrow> string list \<Rightarrow> bool" where
  "endswith_any s sufs = list_ex (endswith s) sufs"

definition img_exts :: "string list" where
  "img_exts = [''.jpg'', ''.jpeg'', ''.gif'', ''.png'']"

text \<open>\<^verbatim>\<open>os.path.basename\<close> and \<^verbatim>\<open>os.path.join\<close> of two components (posixpath).\<close>

definition basename :: "string \<Rightarrow> string" where
  "basename p = rev (takeWhile (\<lambda>c. c \<noteq> CHR ''/'') (rev p))"

definition os_path_join :: "string \<Rightarrow> string \<Rightarrow> string" where
  "os_path_join a b =
     (if b \<noteq> [] \<and> hd b = CHR ''/'' then b
      else if a = [] \<or> last a = CHR ''/'' then a @ b
      else a @ ''/'' @ b)"

subsection \<open>Python floats\<close>

text \<open>
  A finite binary64 value is the rational it denotes. \<open>fl_round\<close> is IEEE 754
  round-to-nearest, ties-to-even, to 53 significant bits, with the exponent held at
  \<open>-1022\<close> for subnormal results; \<open>fl_checked\<close> raises where the rounded result
  leaves the range of a double. Python's \<^verbatim>\<open>int / int\<close>, \<^verbatim>\<open>float(int)\<close> and the product of
  two floats are each the correctly rounded exact result.
\<close>

fun bit_length :: "nat \<Rightarrow> nat" where
  "bit_length n = (if n = 0 then 0 else Suc (bit_length (n div 2)))"

declare bit_length.simps [simp del]

definition pow2 :: "int \<Rightarrow> rat" where
  "pow2 e = (if 0 \<le> e then 2 ^ nat e else 1 / 2 ^ nat (- e))"

text \<open>The exponent \<open>e\<close> with \<open>2^e \<le> q < 2^(e+1)\<close>, for \<open>q > 0\<close>.\<close>

definition ilog2 :: "rat \<Rightarrow> int" where
  "ilog2 q =
     (if 1 \<le> q then int (bit_length (nat \<lfloor>q\<rfloor>)) - 1
      else - int (bit_length (nat (\<lceil>1 / q\<rceil> - 1))))"

definition round_half_even :: "rat \<Rightarrow> int" where
  "round_half_even x =
     (let n = \<lfloor>x\<rfloor>; f = x - of_int n in
      if f < 1 / 2 then n
      else if 1 / 2 < f then n + 1
      else if even n then n else n + 1)"

definition fl_round :: "rat \<Rightarrow> rat" where
  "fl_round q =
     (if q = 0 then 0
      else let e = max (ilog2 \<bar>q\<bar>) (- 1022); u = pow2 (e - 52)
           in of_int (round_half_even (q / u)) * u)"

definition fl_checked :: "rat \<Rightarrow> py_error + rat" where
  "fl_checked q = (let r = fl_round q in if pow2 1024 \<le> \<bar>r\<bar> then Inl OverflowError else Inr r)"

text \<open>A Python number: an \<^verbatim>\<open>int\<close> or a (finite) \<^verbatim>\<open>float\<close>.\<close>

datatype py_num = PyInt int | PyFloat rat

text \<open>\<^verbatim>\<open>a / b\<close> on two ints.\<close>

definition int_truediv :: "int \<Rightarrow> int \<Rightarrow> py_error + rat" where
  "int_truediv a b =
     (if b = 0 then Inl ZeroDivisionError else fl_checked (of_int a / of_int b))"

text \<open>
  \<^verbatim>\<open>min(r1, r2, 1)\<close> on two floats and the int 1: \<^verbatim>\<open>min\<close> keeps the first of its
  arguments that no later one is strictly below, so the int \<^verbatim>\<open>1\<close> is returned only when it
  is strictly below both floats.
\<close>

definition py_min3 :: "rat \<Rightarrow> rat \<Rightarrow> py_num" where
  "py_min3 r1 r2 =
     (let m = (if r2 < r1 then r2 else r1) in if 1 < m then PyInt 1 else PyFloat m)"

text \<open>
  \<^verbatim>\<open>int(w * ratio)\<close> for an int \<^verbatim>\<open>w\<close>. With an int ratio the product is exact. With a float
  ratio \<^verbatim>\<open>w\<close> is converted to a float first and the product is rounded; \<^verbatim>\<open>int\<close> then
  truncates toward zero. (A product beyond the doubles is \<^verbatim>\<open>inf\<close>, on which \<^verbatim>\<open>int\<close> raises
  OverflowError.)
\<close>

definition py_trunc :: "rat \<Rightarrow> int" where
  "py_trunc r = (if 0 \<le> r then \<lfloor>r\<rfloor> else \<lceil>r\<rceil>)"

definition int_of_scaled :: "int \<Rightarrow> py_num \<Rightarrow> py_error + int" where
  "int_of_scaled w ratio =
     (case ratio of
        PyInt k \<Rightarrow> Inr (w * k)
      | PyFloat r \<Rightarrow>
          (case fl_checked (of_int w) of
             Inl e \<Rightarrow> Inl e
           | Inr fw \<Rightarrow>
               (case fl_checked (fw * r) of
                  Inl e \<Rightarrow> Inl e
                | Inr p \<Rightarrow> Inr (py_trunc p))))"

subsection \<open>get\_display\_size\<close>

text \<open>
  The first argument is what \<^verbatim>\<open>winfo_width()\<close> and \<^verbatim>\<open>winfo_height()\<close> of the right frame
  return, the second is \<^verbatim>\<open>pil_img.size\<close>.
\<close>

text \<open>\<^verbatim>\<open>winfo_width() or 400\<close>: a zero is replaced with 400.\<close>

definition pane_bound :: "nat \<Rightarrow> int" where
  "pane_bound p = (if p = 0 then 400 else int p)"

definition get_display_size :: "nat \<times> nat \<Rightarrow> nat \<times> nat \<Rightarrow> py_error + (int \<times> int)" where
  "get_display_size frame sz =
     (let max_w = pane_bound (fst frame);
          max_h = pane_bound (snd frame);
          w = int (fst sz);
          h = int (snd sz)
      in case int_truediv max_w w of
           Inl e \<Rightarrow> Inl e
         | Inr r1 \<Rightarrow>
             (case int_truediv max_h h of
                Inl e \<Rightarrow> Inl e
              | Inr r2 \<Rightarrow>
                  (let ratio = py_min3 r1 r2 in
                   case int_of_scaled w ratio of
                     Inl e \<Rightarrow> Inl e
                   | Inr new_w \<Rightarrow>
                       (case int_of_scaled h ratio of
                          Inl e \<Rightarrow> Inl e
                        | Inr new_h \<Rightarrow> Inr (new_w, new_h)))))"

subsection \<open>The data of the viewer\<close>

type_synonym bytes = string

text \<open>
  A \<^verbatim>\<open>ZipFile\<close> object: \<open>zid\<close> is what \<^verbatim>\<open>id(zip_obj)\<close> returns, \<open>znames\<close> is
  \<^verbatim>\<open>namelist()\<close>, and \<open>zmembers name\<close> is the outcome of
  \<^verbatim>\<open>zip_obj.open(name).read()\<close>.
\<close>

record zip_obj =
  zid :: nat
  znames :: "string list"
  zmembers :: "string \<Rightarrow> py_error + bytes"

record pil_image =
  img_size :: "nat \<times> nat"
  img_pixels :: bytes

text \<open>
  A \<^verbatim>\<open>PhotoImage\<close>: its identity, the size it was resized to, and the decoded image it
  was made from.
\<close>

record photo =
  photo_id :: nat
  photo_size :: "int \<times> int"
  photo_src :: pil_image

datatype dialog = ShowError string string | ShowInfo string string

type_synonym entry = "zip_obj \<times> string \<times> string"

text \<open>
  The state of a \<^verbatim>\<open>UCPViewer\<close>. \<open>entries\<close> and \<open>image_cache\<close> are the two
  attributes of the class; \<open>listbox\<close> and \<open>selection\<close> are the items of the listbox
  and its \<^verbatim>\<open>curselection()\<close>; \<open>image_label\<close> is the image the label shows;
  \<open>right_frame_size\<close> is what \<^verbatim>\<open>winfo_width()\<close> and \<^verbatim>\<open>winfo_height()\<close> return.
  The remaining fields record the calls the program makes: the message boxes shown, the
  zip members read, the sizes passed to \<^verbatim>\<open>resize\<close>, and the number of objects
  created so far.
\<close>

record viewer =
  entries :: "entry list"
  image_cache :: "nat \<times> string \<rightharpoonup> photo"
  listbox :: "string list"
  selection :: "nat list"
  image_label :: "photo option"
  right_frame_size :: "nat \<times> nat"
  dialogs :: "dialog list"
  member_reads :: "(nat \<times> string) list"
  resize_calls :: "(int \<times> int) list"
  allocs :: nat

text \<open>
  A directory on disk. \<open>Dir readable files subs\<close>: \<open>readable\<close> is false when
  listing the directory raises \<^verbatim>\<open>OSError\<close>; \<open>files\<close> are the names of its entries
  that are not directories, in the order of the listing; \<open>subs\<close> are its entries that
  are directories, each with its name, whether the entry is a directory itself or a
  symbolic link to one, and the directory it is or points to.
\<close>

datatype dir_kind = RealDir | SymlinkDir

datatype dir_tree = Dir bool "string list" "(string \<times> dir_kind \<times> dir_tree) list"

text \<open>
  What the program takes from outside: \<open>zipfile_open path\<close> is the outcome of
  \<^verbatim>\<open>zipfile.ZipFile(path, 'r')\<close> (the name list and the members of the archive, or the
  exception raised); \<open>image_open\<close> is \<^verbatim>\<open>Image.open\<close> on the bytes of a member
  (with the decoding that Pillow defers until \<^verbatim>\<open>resize\<close>);
  \<open>obj_id n\<close> is the \<^verbatim>\<open>id\<close> of the \<open>n\<close>-th object created; \<open>askopenfilename\<close>
  is the answer of the file dialog (empty when cancelled); \<open>walk_dir path\<close> is the
  directory at \<open>path\<close>, \<open>None\<close> when \<^verbatim>\<open>os.path.isdir(path)\<close> is false.
\<close>

record world =
  zipfile_open :: "string \<Rightarrow> py_error + (string list \<times> (string \<Rightarrow> py_error + bytes))"
  image_open :: "bytes \<Rightarrow> py_error + pil_image"
  obj_id :: "nat \<Rightarrow> nat"
  askopenfilename :: string
  walk_dir :: "string \<Rightarrow> dir_tree option"

text \<open>The state \<^verbatim>\<open>__init__\<close> leaves, for a right frame of the given size.\<close>

definition init_viewer :: "nat \<times> nat \<Rightarrow> viewer" where
  "init_viewer frame =
     \<lparr>entries = [], image_cache = Map.empty, listbox = [], selection = [],
      image_label = None, right_frame_size = frame, dialogs = [], member_reads = [],
      resize_calls = [], allocs = 0\<rparr>"

subsection \<open>on\_select\<close>

definition on_select :: "world \<Rightarrow> viewer \<Rightarrow> py_error option \<times> viewer" where
  "on_select env s =
     (if entries s = [] then (None, s)
      else case selection s of
        [] \<Rightarrow> (None, s)
      | i # _ \<Rightarrow>
          if length (entries s) \<le> i then (Some IndexError, s)
          else
            (let zobj = fst (entries s ! i);
                 name = fst (snd (entries s ! i));
                 cache_key = (zid zobj, name)
             in case image_cache s cache_key of
                  Some ph \<Rightarrow> (None, s\<lparr>image_label := Some ph\<rparr>)
                | None \<Rightarrow>
                    (let s1 = s\<lparr>member_reads := member_reads s @ [cache_key]\<rparr> in
                     case zmembers zobj name of
                       Inl e \<Rightarrow> (Some e, s1)
                     | Inr data \<Rightarrow>
                         (case image_open env data of
                            Inl e \<Rightarrow> (Some e, s1)
                          | Inr pil_img \<Rightarrow>
                              (case get_display_size (right_frame_size s1) (img_size pil_img) of
                                 Inl e \<Rightarrow> (Some e, s1)
                               | Inr (w0, h0) \<Rightarrow>
                                   (let new_w = max 1 w0;
                                        new_h = max 1 h0;
                                        ph = \<lparr>photo_id = obj_id env (allocs s1),
                                              photo_size = (new_w, new_h),
                                              photo_src = pil_img\<rparr>
                                    in (None,
                                        s1\<lparr>resize_calls := resize_calls s1 @ [(new_w, new_h)],
                                           allocs := Suc (allocs s1),
                                           image_cache := (image_cache s1)(cache_key \<mapsto> ph),
                                           image_label := Some ph\<rparr>)))))))"

subsection \<open>populate\_listbox\<close>

text \<open>The loop \<^verbatim>\<open>for _, _, display in self.entries: self.listbox.insert(tk.END, display)\<close>.\<close>

fun insert_displays :: "entry list \<Rightarrow> string list \<Rightarrow> string list" where
  "insert_displays [] items = items"
| "insert_displays ((z, name, display) # es) items = insert_displays es (items @ [display])"

text \<open>\<^verbatim>\<open>selection_set(i)\<close>: the index joins the selection, which is kept ascending.\<close>

definition selection_set :: "nat \<Rightarrow> nat list \<Rightarrow> nat list" where
  "selection_set i sel = (if i \<in> set sel then sel else insort i sel)"

definition populate_listbox :: "world \<Rightarrow> viewer \<Rightarrow> py_error option \<times> viewer" where
  "populate_listbox env s =
     (let s1 = s\<lparr>listbox := [], selection := []\<rparr>;
          s2 = s1\<lparr>listbox := insert_displays (entries s1) (listbox s1)\<rparr>
      in if entries s2 \<noteq> []
         then on_select env (s2\<lparr>selection := selection_set 0 (selection s2)\<rparr>)
         else (None, s2))"

subsection \<open>open\_ucp\<close>

text \<open>
  The loop over \<^verbatim>\<open>zip_obj.namelist()\<close>, which \<^verbatim>\<open>open_ucp\<close> and \<^verbatim>\<open>open_ucp_folder\<close>
  both contain: an entry is appended for every name whose lowered form ends with one of
  the image extensions.
\<close>

fun append_entries :: "zip_obj \<Rightarrow> string \<Rightarrow> string list \<Rightarrow> entry list \<Rightarrow> entry list" where
  "append_entries z base [] es = es"
| "append_entries z base (name # names) es =
     append_entries z base names
       (if endswith_any (lower name) img_exts then es @ [(z, name, base @ ''::'' @ name)]
        else es)"

definition new_zip_obj :: "world \<Rightarrow> viewer \<Rightarrow> string list \<times> (string \<Rightarrow> py_error + bytes) \<Rightarrow> zip_obj" where
  "new_zip_obj env s arch = \<lparr>zid = obj_id env (allocs s), znames = fst arch, zmembers = snd arch\<rparr>"

definition open_ucp :: "world \<Rightarrow> viewer \<Rightarrow> string option \<Rightarrow> py_error option \<times> viewer" where
  "open_ucp env s file_arg =
     (let file_path = (case file_arg of None \<Rightarrow> askopenfilename env
                       | Some p \<Rightarrow> if p = [] then askopenfilename env else p)
      in if file_path = [] then (None, s)
         else case zipfile_open env file_path of
           Inl e \<Rightarrow>
             if e = BadZipFile
             then (None, s\<lparr>dialogs := dialogs s @
                     [ShowError ''Invalid File'' ''Selected file is not a valid UCP archive.'']\<rparr>)
             else (Some e, s)
         | Inr arch \<Rightarrow>
             (let zobj = new_zip_obj env s arch;
                  s1 = s\<lparr>allocs := Suc (allocs s), entries := []\<rparr>;
                  base = basename file_path;
                  s2 = s1\<lparr>entries := append_entries zobj base (znames zobj) (entries s1)\<rparr>
              in populate_listbox env s2))"

subsection \<open>open\_ucp\_folder\<close>

text \<open>
  \<^verbatim>\<open>os.walk(folder_path)\<close> with its defaults \<^verbatim>\<open>topdown=True\<close>, \<^verbatim>\<open>onerror=None\<close> and
  \<^verbatim>\<open>followlinks=False\<close>: a directory that cannot be listed yields nothing; otherwise its
  triple comes first, with every subdirectory in the directory list, and then the walks of
  the subdirectories in that order, except those that are symbolic links, which are
  listed but not entered.
\<close>

fun os_walk :: "string \<Rightarrow> dir_tree \<Rightarrow> (string \<times> string list \<times> string list) list" where
  "os_walk dirpath (Dir readable files subs) =
     (if readable
      then (dirpath, map fst subs, files) #
             concat (map (\<lambda>sub. if fst (snd sub) = SymlinkDir then []
                                else os_walk (os_path_join dirpath (fst sub)) (snd (snd sub)))
                       subs)
      else [])"

text \<open>The two nested loops that fill \<^verbatim>\<open>archives\<close>.\<close>

fun scan_files :: "string \<Rightarrow> string list \<Rightarrow> string list \<Rightarrow> string list" where
  "scan_files rootp [] archives = archives"
| "scan_files rootp (fname # files) archives =
     scan_files rootp files
       (if endswith (lower fname) ''.ucp'' then archives @ [os_path_join rootp fname]
        else archives)"

fun scan_walk :: "(string \<times> string list \<times> string list) list \<Rightarrow> string list \<Rightarrow> string list" where
  "scan_walk [] archives = archives"
| "scan_walk ((rootp, dirs, files) # rest) archives =
     scan_walk rest (scan_files rootp files archives)"

text \<open>The loop over \<^verbatim>\<open>archives\<close>: an archive that raises BadZipFile is passed over.\<close>

fun load_archives :: "world \<Rightarrow> string list \<Rightarrow> viewer \<Rightarrow> py_error option \<times> viewer" where
  "load_archives env [] s = (None, s)"
| "load_archives env (path # paths) s =
     (case zipfile_open env path of
        Inl e \<Rightarrow> if e = BadZipFile then load_archives env paths s else (Some e, s)
      | Inr arch \<Rightarrow>
          (let zobj = new_zip_obj env s arch;
               base = basename path
           in load_archives env paths
                (s\<lparr>allocs := Suc (allocs s),
                   entries := append_entries zobj base (znames zobj) (entries s)\<rparr>)))"

definition open_ucp_folder :: "world \<Rightarrow> viewer \<Rightarrow> string \<Rightarrow> py_error option \<times> viewer" where
  "open_ucp_folder env s folder_path =
     (if folder_path = [] then (None, s)
      else case walk_dir env folder_path of
        None \<Rightarrow> (None, s)
      | Some tree \<Rightarrow>
          (let archives = scan_walk (os_walk folder_path tree) [] in
           if archives = []
           then (None, s\<lparr>dialogs := dialogs s @
                   [ShowInfo ''No UCP Files'' ''No UCP files found in the specified folder.'']\<rparr>)
           else case load_archives env archives (s\<lparr>entries := []\<rparr>) of
                  (Some e, s1) \<Rightarrow> (Some e, s1)
                | (None, s1) \<Rightarrow> populate_listbox env s1))"

subsection \<open>The entry point\<close>

text \<open>
  The parsed command line: \<^verbatim>\<open>args.folder\<close> and \<^verbatim>\<open>args.file\<close>, each \<open>None\<close> when the
  argument is absent. The script tests both for truth, so an empty string counts as absent.
\<close>

record cmd_args =
  args_folder :: "string option"
  args_file :: "string option"

definition truthy :: "string option \<Rightarrow> bool" where
  "truthy a = (case a of None \<Rightarrow> False | Some x \<Rightarrow> x \<noteq> [])"

definition main :: "world \<Rightarrow> nat \<times> nat \<Rightarrow> cmd_args \<Rightarrow> py_error option \<times> viewer" where
  "main env frame args =
     (let app = init_viewer frame in
      if truthy (args_folder args) then open_ucp_folder env app (the (args_folder args))
      else if truthy (args_file args) then open_ucp env app (args_file args)
      else (None, app))"

subsection \<open>Reference notions for the statements\<close>

text \<open>
  \<open>file_under top tree dirpath fname\<close>: in the tree rooted at the path \<open>top\<close>, the
  directory with path \<open>dirpath\<close> holds a file named \<open>fname\<close>, at any depth and
  through any kind of subdirectory.
\<close>

inductive file_under :: "string \<Rightarrow> dir_tree \<Rightarrow> string \<Rightarrow> string \<Rightarrow> bool" where
  here: "fname \<in> set files \<Longrightarrow> file_under top_path (Dir readable files subs) top_path fname"
| below: "(d, k, t) \<in> set subs \<Longrightarrow> file_under (os_path_join top_path d) t dirpath fname
          \<Longrightarrow> file_under top_path (Dir readable files subs) dirpath fname"

text \<open>
  \<open>file_reached top tree dirpath fname\<close>: the same, where every directory on the way
  from \<open>top\<close> to \<open>dirpath\<close>, both included, can be listed, and none below \<open>top\<close>
  is a symbolic link.
\<close>

inductive file_reached :: "string \<Rightarrow> dir_tree \<Rightarrow> string \<Rightarrow> string \<Rightarrow> bool" where
  here: "fname \<in> set files \<Longrightarrow> file_reached top_path (Dir True files subs) top_path fname"
| below: "(d, RealDir, t) \<in> set subs \<Longrightarrow> file_reached (os_path_join top_path d) t dirpath fname
          \<Longrightarrow> file_reached top_path (Dir True files subs) dirpath fname"

text \<open>A name is an image name when its lowered form ends with one of the four extensions.\<close>

definition is_image_name :: "string \<Rightarrow> bool" where
  "is_image_name name =
     (suffix ''.jpg'' (lower name) \<or> suffix ''.jpeg'' (lower name) \<or>
      suffix ''.gif'' (lower name) \<or> suffix ''.png'' (lower name))"

text \<open>The name and the display name of an entry, and the key it has in the image cache.\<close>

definition entry_name :: "entry \<Rightarrow> string" where
  "entry_name e = fst (snd e)"

definition entry_display :: "entry \<Rightarrow> string" where
  "entry_display e = snd (snd e)"




text \<open>The name and the display name of an entry, as a pair.\<close>

definition entry_names :: "entry \<Rightarrow> string \<times> string" where
  "entry_names e = (entry_name e, entry_display e)"

text \<open>
  What one archive contributes to the listing: nothing when it does not open, otherwise
  the image names of its name list, in order, each with its display name.
\<close>

definition archive_listing :: "world \<Rightarrow> string \<Rightarrow> (string \<times> string) list" where
  "archive_listing env path =
     (case zipfile_open env path of
        Inl e \<Rightarrow> []
      | Inr arch \<Rightarrow> map (\<lambda>name. (name, basename path @ ''::'' @ name)) (filter is_image_name (fst arch)))"

subsection \<open>Sample data\<close>

text \<open>A folder with an archive at the top, another one level down, and other files.\<close>

definition tree0 :: dir_tree where
  "tree0 = Dir True [''a.UCP'', ''b.txt''] [(''sub'', RealDir, Dir True [''c.ucp'', ''ucp''] [])]"

text \<open>A folder whose only archive lies behind a symbolic link to a directory.\<close>

definition tree_link :: dir_tree where
  "tree_link = Dir True [] [(''link'', SymlinkDir, Dir True [''o.ucp''] [])]"

text \<open>
  An archive \<^verbatim>\<open>d/a.UCP\<close> with a decodable image of 1000 by 1 pixels, a text file and an
  image that does not decode; an archive \<^verbatim>\<open>j.ucp\<close> with the undecodable image alone; an
  archive \<^verbatim>\<open>k.ucp\<close> whose \<^verbatim>\<open>x.PNG\<close> is another image, of 1 by 1000 pixels; a file
  \<^verbatim>\<open>d/sub/c.ucp\<close> that is no zip container; a folder \<^verbatim>\<open>e\<close> without archives; a
  folder \<^verbatim>\<open>f\<close> with \<^verbatim>\<open>v99.ucp\<close>, a zip container of a version that
  \<^verbatim>\<open>zipfile\<close> refuses with NotImplementedError, followed by a good archive; the folder
  \<^verbatim>\<open>y\<close> of \<open>tree_link\<close>.
\<close>

definition members0 :: "string \<Rightarrow> py_error + bytes" where
  "members0 name =
     (if name = ''x.PNG'' then Inr ''wide''
      else if name = ''y.jpeg'' then Inr ''junk''
      else Inl KeyError)"

definition members1 :: "string \<Rightarrow> py_error + bytes" where
  "members1 name = (if name = ''x.PNG'' then Inr ''tall'' else Inl KeyError)"

definition tree_f :: dir_tree where
  "tree_f = Dir True [''v99.ucp'', ''a.UCP''] []"

definition world0 :: world where
  "world0 =
     \<lparr>zipfile_open = (\<lambda>p.
          if p = ''d/a.UCP'' then Inr ([''x.PNG'', ''readme.txt'', ''y.jpeg''], members0)
          else if p = ''j.ucp'' then Inr ([''y.jpeg''], members0)
          else if p = ''k.ucp'' then Inr ([''x.PNG''], members1)
          else if p = ''f/a.UCP'' then Inr ([''x.PNG''], members0)
          else if p = ''d/sub/c.ucp'' then Inl BadZipFile
          else if p = ''f/v99.ucp'' then Inl NotImplementedError
          else if p = ''d'' then Inl IsADirectoryError
          else Inl FileNotFoundError),
      image_open = (\<lambda>data.
          if data = ''wide'' then Inr \<lparr>img_size = (1000, 1), img_pixels = ''wide''\<rparr>
          else if data = ''tall'' then Inr \<lparr>img_size = (1, 1000), img_pixels = ''tall''\<rparr>
          else Inl UnidentifiedImageError),
      obj_id = (\<lambda>n. 7000 + n),
      askopenfilename = [],
      walk_dir = (\<lambda>p.
          if p = ''d'' then Some tree0
          else if p = ''e'' then Some (Dir True [''b.txt''] [])
          else if p = ''f'' then Some tree_f
          else if p = ''y'' then Some tree_link
          else None)\<rparr>"

text \<open>The same, where every new object gets the id 7000, as after the old ones were freed.\<close>

definition world_reuse :: world where
  "world_reuse = world0\<lparr>obj_id := (\<lambda>n. 7000)\<rparr>"

definition viewer0 :: viewer where
  "viewer0 = init_viewer (400, 400)"

definition zip0 :: zip_obj where
  "zip0 = \<lparr>zid = 7000, znames = [''x.PNG'', ''readme.txt'', ''y.jpeg''], zmembers = members0\<rparr>"

definition photo0 :: photo where
  "photo0 = \<lparr>photo_id = 7001, photo_size = (400, 1),
             photo_src = \<lparr>img_size = (1000, 1), img_pixels = ''wide''\<rparr>\<rparr>"

definition entries0 :: "entry list" where
  "entries0 = [(zip0, ''x.PNG'', ''a.UCP::x.PNG''), (zip0, ''y.jpeg'', ''a.UCP::y.jpeg'')]"

text \<open>
  The viewer after \<^verbatim>\<open>d/a.UCP\<close> has been listed and its first entry selected
  (\<open>listed0\<close>), and after that entry has been displayed (\<open>loaded0\<close>).
\<close>

definition listed0 :: viewer where
  "listed0 = viewer0
     \<lparr>entries := entries0,
      listbox := [''a.UCP::x.PNG'', ''a.UCP::y.jpeg''],
      selection := [0],
      allocs := 1\<rparr>"

definition loaded0 :: viewer where
  "loaded0 = listed0
     \<lparr>image_cache := [(7000, ''x.PNG'') \<mapsto> photo0],
      image_label := Some photo0,
      member_reads := [(7000, ''x.PNG'')],
      resize_calls := [(400, 1)],
      allocs := 2\<rparr>"

text \<open>A command line with an empty folder argument and a file argument.\<close>

definition args0 :: cmd_args where
  "args0 = \<lparr>args_folder = Some [], args_file = Some ''d/sub/c.ucp''\<rparr>"

section \<open>Properties\<close>

subsection \<open>Suffix tests and the loops\<close>

lemma endswith_suffix: "endswith s suf = suffix suf s"
  unfolding endswith_def
proof
  assume a: "length suf \<le> length s \<and> drop (length s - length suf) s = suf"
  then have "s = take (length s - length suf) s @ suf"
    by (metis append_take_drop_id)
  then show "suffix suf s" by (metis suffixI)
next
  assume "suffix suf s"
  then obtain zs where "s = zs @ suf" by (auto simp: suffix_def)
  then show "length suf \<le> length s \<and> drop (length s - length suf) s = suf" by simp
qed

lemma endswith_any_lower: "endswith_any (lower n) img_exts = is_image_name n"
  by (simp add: endswith_any_def img_exts_def endswith_suffix is_image_name_def)

lemma append_entries_eq:
  "append_entries z base names es =
     es @ map (\<lambda>n. (z, n, base @ ''::'' @ n)) (filter is_image_name names)"
  by (induction names arbitrary: es) (simp_all add: endswith_any_lower)

lemma insert_displays_eq:
  "insert_displays es items = items @ map entry_display es"
  by (induction es items rule: insert_displays.induct) (simp_all add: entry_display_def)

lemma scan_files_eq:
  "scan_files r fs acc =
     acc @ map (os_path_join r) (filter (\<lambda>fn. suffix ''.ucp'' (lower fn)) fs)"
  by (induction fs arbitrary: acc) (simp_all add: endswith_suffix)

lemma scan_walk_eq:
  "scan_walk ws acc =
     acc @ concat (map (\<lambda>(r, ds, fs).
             map (os_path_join r) (filter (\<lambda>fn. suffix ''.ucp'' (lower fn)) fs)) ws)"
  by (induction ws acc rule: scan_walk.induct) (simp_all add: scan_files_eq)

subsection \<open>What on\_select and populate\_listbox leave alone\<close>

lemma on_select_frame:
  "entries (snd (on_select env s)) = entries s"
  "dialogs (snd (on_select env s)) = dialogs s"
  "listbox (snd (on_select env s)) = listbox s"
  "selection (snd (on_select env s)) = selection s"
  by (auto simp: on_select_def Let_def split: list.splits option.splits sum.splits prod.splits)

lemma populate_listbox_frame:
  "entries (snd (populate_listbox env s)) = entries s"
  "dialogs (snd (populate_listbox env s)) = dialogs s"
  "listbox (snd (populate_listbox env s)) = map entry_display (entries s)"
  by (simp_all add: populate_listbox_def Let_def on_select_frame insert_displays_eq)


subsection \<open>The directory scan\<close>

lemma os_walk_sound:
  "(r, ds, fs) \<in> set (os_walk d t) \<Longrightarrow> fn \<in> set fs \<Longrightarrow> file_reached d t r fn"
proof (induction d t arbitrary: r ds fs rule: os_walk.induct)
  case (1 dirpath readable files subs)
  from "1.prems"(1) have rd: "readable" by (auto split: if_splits)
  from "1.prems"(1) rd consider
    (top) "r = dirpath" "fs = files"
  | (sub) sub where "sub \<in> set subs" "fst (snd sub) \<noteq> SymlinkDir"
      "(r, ds, fs) \<in> set (os_walk (os_path_join dirpath (fst sub)) (snd (snd sub)))"
    by (auto split: if_splits)
  then show ?case
  proof cases
    case top
    with "1.prems"(2) rd show ?thesis by (simp add: file_reached.here)
  next
    case sub
    then have "file_reached (os_path_join dirpath (fst sub)) (snd (snd sub)) r fn"
      using "1.IH" "1.prems"(2) rd by blast
    moreover have "fst (snd sub) = RealDir" using sub(2) by (cases "fst (snd sub)") simp_all
    then have "(fst sub, RealDir, snd (snd sub)) \<in> set subs"
      using sub(1) by (metis prod.collapse)
    ultimately show ?thesis using rd by (simp add: file_reached.below)
  qed
qed

lemma os_walk_complete:
  "file_reached d t r fn \<Longrightarrow> \<exists>ds fs. (r, ds, fs) \<in> set (os_walk d t) \<and> fn \<in> set fs"
proof (induction rule: file_reached.induct)
  case (here fname files top_path subs)
  then show ?case by auto
next
  case (below d t subs top_path dirpath fname files)
  then obtain ds fs where "(dirpath, ds, fs) \<in> set (os_walk (os_path_join top_path d) t)" "fname \<in> set fs"
    by blast
  with below(1) show ?case by force
qed

lemma file_reached_under:
  "file_reached d t r fn \<Longrightarrow> file_under d t r fn"
  by (induction rule: file_reached.induct) (auto intro: file_under.intros)

lemma scan_walk_reached:
  "set (scan_walk (os_walk folder_path tree) []) =
     {os_path_join dirpath fname | dirpath fname.
        file_reached folder_path tree dirpath fname \<and> suffix ''.ucp'' (lower fname)}"
  (is "?L = ?R")
proof
  show "?L \<subseteq> ?R"
    by (auto simp: scan_walk_eq dest: os_walk_sound)
  show "?R \<subseteq> ?L"
  proof
    fix p assume "p \<in> ?R"
    then obtain r fn where p: "p = os_path_join r fn" "file_reached folder_path tree r fn"
      "suffix ''.ucp'' (lower fn)" by blast
    from os_walk_complete[OF p(2)] obtain ds fs where
      "(r, ds, fs) \<in> set (os_walk folder_path tree)" "fn \<in> set fs" by blast
    with p show "p \<in> ?L" by (force simp: scan_walk_eq)
  qed
qed

text \<open>
  Claim C3, amended. The paths collected in \<^verbatim>\<open>archives\<close> are, as a set, exactly the
  joined paths of the files whose lowered name ends with \<^verbatim>\<open>.ucp\<close> in the directories
  the walk enters: the folder itself and, recursively, its subdirectories that can be
  listed and are not symbolic links. Each of them is a file under the folder, and they are
  collected in the order of the walk.
\<close>

theorem scan_archives_C3:
  "set (scan_walk (os_walk folder_path tree) []) =
     {os_path_join dirpath fname | dirpath fname.
        file_reached folder_path tree dirpath fname \<and> suffix ''.ucp'' (lower fname)}
   \<and> set (scan_walk (os_walk folder_path tree) []) \<subseteq>
     {os_path_join dirpath fname | dirpath fname.
        file_under folder_path tree dirpath fname \<and> suffix ''.ucp'' (lower fname)}
   \<and> scan_walk (os_walk folder_path tree) [] =
       concat (map (\<lambda>(dirpath, dirs, files).
                 map (os_path_join dirpath) (filter (\<lambda>fname. suffix ''.ucp'' (lower fname)) files))
               (os_walk folder_path tree))"
proof (intro conjI)
  show "set (scan_walk (os_walk folder_path tree) []) =
     {os_path_join dirpath fname | dirpath fname.
        file_reached folder_path tree dirpath fname \<and> suffix ''.ucp'' (lower fname)}"
    by (rule scan_walk_reached)
  show "set (scan_walk (os_walk folder_path tree) []) \<subseteq>
     {os_path_join dirpath fname | dirpath fname.
        file_under folder_path tree dirpath fname \<and> suffix ''.ucp'' (lower fname)}"
    unfolding scan_walk_reached using file_reached_under by blast
  show "scan_walk (os_walk folder_path tree) [] =
       concat (map (\<lambda>(dirpath, dirs, files).
                 map (os_path_join dirpath) (filter (\<lambda>fname. suffix ''.ucp'' (lower fname)) files))
               (os_walk folder_path tree))"
    by (simp add: scan_walk_eq)
qed

theorem scan_archives_C3_witness:
  "{os_path_join dirpath fname | dirpath fname.
        file_reached ''d'' tree0 dirpath fname \<and> suffix ''.ucp'' (lower fname)} =
     {''d/a.UCP'', ''d/sub/c.ucp''}"
  using scan_archives_C3 [of "''d''" tree0]
  by (simp add: tree0_def os_path_join_def endswith_def lower_def lower_char_def)

text \<open>
  The claim as stated fails for a file behind a symbolic link to a directory: in the folder
  \<^verbatim>\<open>y\<close> the file \<^verbatim>\<open>y/link/o.ucp\<close> is under the folder and its name ends with
  \<^verbatim>\<open>.ucp\<close>, but the walk lists \<^verbatim>\<open>link\<close> without entering it, and nothing is collected.
\<close>

theorem scan_archives_C3_counterexample:
  "file_under ''y'' tree_link ''y/link'' ''o.ucp'' \<and> suffix ''.ucp'' (lower ''o.ucp'') \<and>
   os_walk ''y'' tree_link = [(''y'', [''link''], [])] \<and>
   scan_walk (os_walk ''y'' tree_link) [] = []"
proof (intro conjI)
  have "file_under (os_path_join ''y'' ''link'') (Dir True [''o.ucp''] []) ''y/link'' ''o.ucp''"
    by (simp add: os_path_join_def file_under.here)
  then show "file_under ''y'' tree_link ''y/link'' ''o.ucp''"
    unfolding tree_link_def by (rule file_under.below[rotated]) simp
  show "suffix ''.ucp'' (lower ''o.ucp'')"
    by (simp add: lower_def lower_char_def suffix_to_prefix)
  show "os_walk ''y'' tree_link = [(''y'', [''link''], [])]"
    by (simp add: tree_link_def)
  then show "scan_walk (os_walk ''y'' tree_link) [] = []"
    by simp
qed

subsection \<open>Rounding to a double\<close>

lemma pow2_powi: "pow2 e = 2 powi e"
  by (simp add: pow2_def power_int_def power_one_over inverse_eq_divide)

lemma pow2_pos: "0 < pow2 e"
  by (simp add: pow2_powi)

lemma pow2_add: "pow2 (a + b) = pow2 a * pow2 b"
  by (simp add: pow2_powi power_int_add)

lemma pow2_nat: "pow2 (int n) = 2 ^ n"
  by (simp add: pow2_def)

lemma pow2_neg_nat: "pow2 (- int n) = 1 / 2 ^ n"
  by (simp add: pow2_def)

lemma pow2_mono: "a \<le> b \<Longrightarrow> pow2 a \<le> pow2 b"
  by (simp add: pow2_powi power_int_increasing)

lemma pow2_less_cancel: "pow2 a < pow2 b \<Longrightarrow> a < b"
  by (metis pow2_mono not_le)

lemma bit_length_bounds:
  "0 < n \<Longrightarrow> 2 ^ (bit_length n - 1) \<le> n \<and> n < 2 ^ bit_length n"
proof (induction n rule: bit_length.induct)
  case (1 n)
  show ?case
  proof (cases "n div 2 = 0")
    case True
    with "1.prems" have "n = 1" by (simp add: div_eq_0_iff) 
    then show ?thesis by (simp add: bit_length.simps)
  next
    case False
    then have IH: "2 ^ (bit_length (n div 2) - 1) \<le> n div 2" "n div 2 < 2 ^ bit_length (n div 2)"
      using "1.IH" "1.prems" by auto
    have pos: "0 < bit_length (n div 2)" using False by (simp add: bit_length.simps)
    have bl: "bit_length n = Suc (bit_length (n div 2))"
      using "1.prems" by (subst bit_length.simps) simp
    have "2 ^ (bit_length n - 1) = 2 * 2 ^ (bit_length (n div 2) - 1)"
      using pos bl by (cases "bit_length (n div 2)") simp_all
    also have "\<dots> \<le> 2 * (n div 2)" using IH(1) by simp
    also have "\<dots> \<le> n" by simp
    finally have A: "2 ^ (bit_length n - 1) \<le> n" .
    have "n < 2 * (n div 2) + 2" by presburger
    also have "\<dots> \<le> 2 * 2 ^ bit_length (n div 2)" using IH(2) by simp
    finally have B: "n < 2 ^ bit_length n" using bl by simp
    from A B show ?thesis ..
  qed
qed

lemma of_nat_pow2_le: "2 ^ k \<le> (n::nat) \<Longrightarrow> (2::rat) ^ k \<le> of_nat n"
proof -
  assume "2 ^ k \<le> n"
  then have "(of_nat (2 ^ k) :: rat) \<le> of_nat n" by (rule of_nat_mono)
  then show ?thesis by simp
qed

lemma of_nat_less_pow2: "(n::nat) < 2 ^ k \<Longrightarrow> (of_nat n :: rat) + 1 \<le> 2 ^ k"
proof -
  assume "n < 2 ^ k"
  then have "Suc n \<le> 2 ^ k" by simp
  then have "(of_nat (Suc n) :: rat) \<le> of_nat (2 ^ k)" by (rule of_nat_mono)
  then show ?thesis by (simp add: add.commute)
qed

lemma bit_length_pos: "0 < n \<Longrightarrow> 0 < bit_length n"
  by (subst bit_length.simps) simp

lemma ilog2_bounds:
  assumes "0 < q"
  shows "pow2 (ilog2 q) \<le> q \<and> q < pow2 (ilog2 q + 1)"
proof (cases "1 \<le> q")
    case True
    define n where "n = nat \<lfloor>q\<rfloor>"
    have npos: "0 < n" using True by (simp add: n_def)
    have nq: "of_nat n \<le> q" "q < of_nat n + 1"
    proof -
      have "int n = \<lfloor>q\<rfloor>" using True by (simp add: n_def)
      then have "(of_nat n :: rat) = of_int \<lfloor>q\<rfloor>" by (metis of_int_of_nat_eq)
      then show "of_nat n \<le> q" "q < of_nat n + 1" by (simp_all add: floor_less_cancel)
    qed
    from bit_length_bounds[OF npos] have b: "2 ^ (bit_length n - 1) \<le> n" "n < 2 ^ bit_length n" by auto
    have e: "ilog2 q = int (bit_length n) - 1" using True by (simp add: ilog2_def n_def)
    have e': "ilog2 q = int (bit_length n - 1)" using e bit_length_pos[OF npos] by simp
    have "pow2 (ilog2 q) = 2 ^ (bit_length n - 1)" unfolding e' by (rule pow2_nat)
    also have "\<dots> \<le> of_nat n" using b(1) by (rule of_nat_pow2_le)
    finally have A: "pow2 (ilog2 q) \<le> q" using nq(1) by simp
    have "(of_nat n :: rat) + 1 \<le> 2 ^ bit_length n"
      using b(2) by (rule of_nat_less_pow2)
    moreover have "pow2 (ilog2 q + 1) = 2 ^ bit_length n" using e pow2_nat[of "bit_length n"] by simp
    ultimately have "q < pow2 (ilog2 q + 1)" using nq(2) by simp
    with A show ?thesis by simp
  next
    case False
    define x where "x = 1 / q"
    have x1: "1 < x" using False assms by (simp add: x_def)
    define m where "m = nat (\<lceil>x\<rceil> - 1)"
    have c2: "2 \<le> \<lceil>x\<rceil>" using x1 by (simp add: le_ceiling_iff)
    have mpos: "0 < m" using c2 by (simp add: m_def)
    have mx: "of_nat m < x" "x \<le> of_nat m + 1"
    proof -
      have "of_int (\<lceil>x\<rceil> - 1) < x" using ceiling_correct[of x] by simp
      moreover have "int m = \<lceil>x\<rceil> - 1" using c2 by (simp add: m_def)
      ultimately show "of_nat m < x" by (metis of_int_of_nat_eq)
      have "x \<le> of_int \<lceil>x\<rceil>" by (rule le_of_int_ceiling)
      moreover have "\<lceil>x\<rceil> = int m + 1" using c2 by (simp add: m_def)
      ultimately show "x \<le> of_nat m + 1" by simp
    qed
    from bit_length_bounds[OF mpos] have b: "2 ^ (bit_length m - 1) \<le> m" "m < 2 ^ bit_length m" by auto
    have e: "ilog2 q = - int (bit_length m)" using False by (simp add: ilog2_def m_def x_def)
    have "(of_nat m :: rat) + 1 \<le> 2 ^ bit_length m"
      using b(2) by (rule of_nat_less_pow2)
    then have "x \<le> 2 ^ bit_length m" using mx(2) by simp
    then have "1 / 2 ^ bit_length m \<le> q"
      using assms by (simp add: x_def field_simps)
    moreover have "pow2 (ilog2 q) = 1 / 2 ^ bit_length m"
      unfolding e by (rule pow2_neg_nat)
    ultimately have A: "pow2 (ilog2 q) \<le> q" by simp
    have "(2::rat) ^ (bit_length m - 1) \<le> of_nat m"
      using b(1) by (rule of_nat_pow2_le)
    then have "2 ^ (bit_length m - 1) < x" using mx(1) by (rule le_less_trans)
    then have "q < 1 / 2 ^ (bit_length m - 1)"
      using assms by (simp add: x_def field_simps)
    moreover have "pow2 (ilog2 q + 1) = 1 / 2 ^ (bit_length m - 1)"
    proof -
      have "ilog2 q + 1 = - int (bit_length m - 1)" using e bit_length_pos[OF mpos] by simp
      then have "pow2 (ilog2 q + 1) = pow2 (- int (bit_length m - 1))" by simp
      also have "\<dots> = 1 / 2 ^ (bit_length m - 1)" by (rule pow2_neg_nat)
      finally show ?thesis .
    qed
    ultimately have "q < pow2 (ilog2 q + 1)" by simp
    with A show ?thesis by simp
qed

lemma round_half_even_err: "\<bar>of_int (round_half_even x) - x\<bar> \<le> 1 / 2"
proof -
  have f: "0 \<le> x - of_int \<lfloor>x\<rfloor>" "x - of_int \<lfloor>x\<rfloor> < 1"
    by linarith+
  then show ?thesis
    by (auto simp: round_half_even_def Let_def abs_le_iff)
qed

lemma round_half_even_int: "round_half_even (of_int k) = k"
  by (simp add: round_half_even_def)

lemma ilog2_ge:
  assumes "pow2 k \<le> q"
  shows "k \<le> ilog2 q"
proof -
  have "0 < q" using assms pow2_pos[of k] by linarith
  then have "q < pow2 (ilog2 q + 1)" using ilog2_bounds by blast
  with assms have "pow2 k < pow2 (ilog2 q + 1)" by linarith
  then have "k < ilog2 q + 1" by (rule pow2_less_cancel)
  then show ?thesis by simp
qed

lemma ilog2_less:
  assumes "0 < q" "q < pow2 k"
  shows "ilog2 q < k"
proof -
  have "pow2 (ilog2 q) \<le> q" using assms(1) ilog2_bounds by blast
  with assms(2) have "pow2 (ilog2 q) < pow2 k" by linarith
  then show ?thesis by (rule pow2_less_cancel)
qed

lemma fl_round_err:
  assumes "pow2 (- 1022) \<le> q"
  shows "\<bar>fl_round q - q\<bar> \<le> q / 2 ^ 53"
proof -
  have qpos: "0 < q" using assms pow2_pos[of "- 1022"] by linarith
  define e where "e = ilog2 q"
  define u where "u = pow2 (e - 52)"
  have e_ge: "- 1022 \<le> e" unfolding e_def using assms by (rule ilog2_ge)
  have upos: "0 < u" unfolding u_def by (rule pow2_pos)
  have fr: "fl_round q = of_int (round_half_even (q / u)) * u"
    using qpos e_ge by (simp add: fl_round_def Let_def e_def u_def max_def)
  have "fl_round q - q = (of_int (round_half_even (q / u)) - q / u) * u"
    using upos by (simp add: fr field_simps)
  then have "\<bar>fl_round q - q\<bar> = \<bar>of_int (round_half_even (q / u)) - q / u\<bar> * u"
    using upos by (simp add: abs_mult)
  also have "\<dots> \<le> (1 / 2) * u"
    using round_half_even_err[of "q / u"] upos by (rule mult_right_mono[OF _ less_imp_le])
  also have "(1 / 2) * u = pow2 e / 2 ^ 53"
  proof -
    have "pow2 e = pow2 (e - 52) * pow2 52" using pow2_add[of "e - 52" 52] by simp
    then show ?thesis by (simp add: u_def pow2_def)
  qed
  also have "\<dots> \<le> q / 2 ^ 53"
    using ilog2_bounds[OF qpos] by (simp add: e_def divide_right_mono)
  finally show ?thesis .
qed

lemma fl_round_upper: "pow2 (- 1022) \<le> q \<Longrightarrow> fl_round q \<le> q + q / 2 ^ 53"
  using fl_round_err[of q] by linarith

lemma fl_round_lower: "pow2 (- 1022) \<le> q \<Longrightarrow> q - q / 2 ^ 53 \<le> fl_round q"
  using fl_round_err[of q] by linarith

lemma fl_round_int:
  assumes "0 \<le> n" "n < 2 ^ 53"
  shows "fl_round (of_int n) = of_int n"
proof (cases "n = 0")
  case True
  then show ?thesis by (simp add: fl_round_def)
next
  case False
  with assms have n1: "1 \<le> n" by simp
  define q :: rat where "q = of_int n"
  have q1: "1 \<le> q" using n1 by (simp add: q_def)
  have qlt: "q < pow2 53"
  proof -
    have "(of_int n :: rat) < of_int (2 ^ 53)" using assms(2) by (simp only: of_int_less_iff)
    then show ?thesis by (simp add: q_def pow2_def)
  qed
  define e where "e = ilog2 q"
  have e0: "0 \<le> e" unfolding e_def using q1 by (intro ilog2_ge) (simp add: pow2_def)
  have e53: "e < 53" unfolding e_def using q1 qlt by (intro ilog2_less) simp_all
  define k where "k = nat (52 - e)"
  have u: "pow2 (e - 52) = 1 / 2 ^ k"
  proof -
    have "e - 52 = - int k" using e53 by (simp add: k_def)
    then show ?thesis by (simp only: pow2_neg_nat)
  qed
  have "q / (1 / 2 ^ k) = of_int (n * 2 ^ k)" by (simp add: q_def)
  then have r: "round_half_even (q / (1 / 2 ^ k)) = n * 2 ^ k"
    by (simp only: round_half_even_int)
  have "fl_round q = of_int (round_half_even (q / pow2 (e - 52))) * pow2 (e - 52)"
    using q1 e0 by (simp add: fl_round_def Let_def e_def max_def)
  also have "\<dots> = of_int (n * 2 ^ k) * (1 / 2 ^ k)" by (simp only: u r)
  also have "\<dots> = q" by (simp add: q_def)
  finally show ?thesis by (simp add: q_def)
qed

lemma pow2_m1022_le: "1 / 2 ^ 54 \<le> q \<Longrightarrow> pow2 (- 1022) \<le> q"
proof -
  assume a: "1 / 2 ^ 54 \<le> q"
  have "pow2 (- 1022) \<le> pow2 (- int 54)" by (rule pow2_mono) simp
  also have "\<dots> = 1 / 2 ^ 54" by (rule pow2_neg_nat)
  finally show ?thesis using a by simp
qed

lemma fl_checked_ok:
  assumes "1 / 2 ^ 54 \<le> q" "q \<le> 2 ^ 53"
  shows "fl_checked q = Inr (fl_round q) \<and> 0 < fl_round q"
proof -
  have n: "pow2 (- 1022) \<le> q" using assms(1) by (rule pow2_m1022_le)
  have qpos: "0 < q"
  proof -
    have "(0::rat) < 1 / 2 ^ 54" by simp
    with assms(1) show ?thesis by linarith
  qed
  have lo: "q - q / 2 ^ 53 \<le> fl_round q" using n by (rule fl_round_lower)
  have hi: "fl_round q \<le> q + q / 2 ^ 53" using n by (rule fl_round_upper)
  have pos: "0 < fl_round q" using lo qpos by simp
  have "q / 2 ^ 53 \<le> 1" using assms(2) by simp
  with hi assms(2) have "fl_round q \<le> 2 ^ 53 + 1" by linarith
  also have "(2::rat) ^ 53 + 1 < 2 ^ 54" by simp
  also have "(2::rat) ^ 54 \<le> 2 ^ 1024" by (rule power_increasing) simp_all
  also have "(2::rat) ^ 1024 = pow2 (int 1024)" by (rule pow2_nat[symmetric])
  finally have "fl_round q < pow2 1024" by simp
  with pos show ?thesis by (simp add: fl_checked_def Let_def)
qed

lemma truediv_facts:
  fixes a w :: int
  assumes "1 \<le> a" "a < 2 ^ 52" "1 \<le> w" "w < 2 ^ 52"
  shows "int_truediv a w = Inr (fl_round (of_int a / of_int w))"
    and "1 / 2 ^ 53 \<le> fl_round (of_int a / of_int w)"
    and "of_int w * fl_round (of_int a / of_int w) \<le> of_int a + of_int a / 2 ^ 53"
proof -
  define A :: rat where "A = of_int a"
  define W :: rat where "W = of_int w"
  have A: "1 \<le> A" "A \<le> 2 ^ 52" 
  proof -
    show "1 \<le> A" using assms(1) by (simp add: A_def)
    have "(of_int a :: rat) \<le> of_int (2 ^ 52)" using assms(2) by (simp only: of_int_le_iff)
    then show "A \<le> 2 ^ 52" by (simp add: A_def)
  qed
  have W: "1 \<le> W" "W \<le> 2 ^ 52"
  proof -
    show "1 \<le> W" using assms(3) by (simp add: W_def)
    have "(of_int w :: rat) \<le> of_int (2 ^ 52)" using assms(4) by (simp only: of_int_le_iff)
    then show "W \<le> 2 ^ 52" by (simp add: W_def)
  qed
  define q where "q = A / W"
  have qlo: "1 / 2 ^ 52 \<le> q" unfolding q_def using A W by (intro frac_le) simp_all
  have "A / W \<le> A / 1" using A W by (intro divide_left_mono) simp_all
  then have qhi: "q \<le> 2 ^ 52" using A by (simp add: q_def)
  have Wq: "W * q = A" using W by (simp add: q_def)
  have q54: "1 / 2 ^ 54 \<le> q" using qlo by simp
  have n: "pow2 (- 1022) \<le> q" using q54 by (rule pow2_m1022_le)
  have ok: "fl_checked q = Inr (fl_round q)" using fl_checked_ok[of q] q54 qhi by simp
  have lo: "q - q / 2 ^ 53 \<le> fl_round q" using n by (rule fl_round_lower)
  have hi: "fl_round q \<le> q + q / 2 ^ 53" using n by (rule fl_round_upper)
  show "int_truediv a w = Inr (fl_round (of_int a / of_int w))"
    using assms(3) ok by (simp add: int_truediv_def q_def A_def W_def)
  have "1 / 2 ^ 53 \<le> q - q / 2 ^ 53" using qlo by simp
  with lo show "1 / 2 ^ 53 \<le> fl_round (of_int a / of_int w)"
    by (simp add: q_def A_def W_def)
  have "W * fl_round q \<le> W * (q + q / 2 ^ 53)" using hi W by (intro mult_left_mono) simp_all
  also have "\<dots> = W * q + W * q / 2 ^ 53" by (simp add: distrib_left)
  also have "\<dots> = A + A / 2 ^ 53" by (simp only: Wq)
  finally show "of_int w * fl_round (of_int a / of_int w) \<le> of_int a + of_int a / 2 ^ 53"
    by (simp add: q_def A_def W_def)
qed

lemma scaled_float:
  fixes w :: int and m :: rat
  assumes "1 \<le> w" "w < 2 ^ 52" "1 / 2 ^ 53 \<le> m" "m \<le> 1"
  shows "int_of_scaled w (PyFloat m) = Inr \<lfloor>fl_round (of_int w * m)\<rfloor>"
    and "0 \<le> \<lfloor>fl_round (of_int w * m)\<rfloor>"
    and "\<lfloor>fl_round (of_int w * m)\<rfloor> \<le> w"
    and "fl_round (of_int w * m) \<le> of_int w * m + of_int w * m / 2 ^ 53"
proof -
  define W :: rat where "W = of_int w"
  have W: "1 \<le> W" "W \<le> 2 ^ 52 - 1"
  proof -
    show "1 \<le> W" using assms(1) by (simp add: W_def)
    have "w \<le> 2 ^ 52 - 1" using assms(2) by simp
    then have "(of_int w :: rat) \<le> of_int (2 ^ 52 - 1)" by (simp only: of_int_le_iff)
    then show "W \<le> 2 ^ 52 - 1" by (simp add: W_def)
  qed
  have fw: "fl_checked W = Inr W"
  proof -
    have "fl_round (of_int w) = of_int w" using assms(1,2) by (intro fl_round_int) simp_all
    moreover have "fl_checked W = Inr (fl_round W)" using fl_checked_ok[of W] W by simp
    ultimately show ?thesis by (simp add: W_def)
  qed
  define q where "q = W * m"
  have mpos: "0 < m"
  proof -
    have "(0::rat) < 1 / 2 ^ 53" by simp
    with assms(3) show ?thesis by linarith
  qed
  have "1 * m \<le> W * m" using W(1) mpos by (intro mult_right_mono) simp_all
  then have "m \<le> q" by (simp only: q_def mult_1)
  then have qlo: "1 / 2 ^ 53 \<le> q" using assms(3) by linarith
  have "W * m \<le> W * 1" using assms(4) W(1) by (intro mult_left_mono) simp_all
  then have qW: "q \<le> W" by (simp only: q_def mult_1_right)
  have q54: "1 / 2 ^ 54 \<le> q" using qlo by simp
  have qhi: "q \<le> 2 ^ 53" using qW W(2) by simp
  have ok: "fl_checked q = Inr (fl_round q)" "0 < fl_round q"
    using fl_checked_ok[of q] q54 qhi by simp_all
  have hi: "fl_round q \<le> q + q / 2 ^ 53" using q54 by (intro fl_round_upper pow2_m1022_le)
  show "int_of_scaled w (PyFloat m) = Inr \<lfloor>fl_round (of_int w * m)\<rfloor>"
    using fw ok by (simp add: int_of_scaled_def py_trunc_def W_def q_def)
  show "0 \<le> \<lfloor>fl_round (of_int w * m)\<rfloor>"
    using ok(2) by (simp add: W_def q_def)
  have "q / 2 ^ 53 < 1" using qW W(2) by simp
  with hi qW have "fl_round q < W + 1" by linarith
  then have "fl_round q < of_int (w + 1)" by (simp add: W_def)
  then have "\<lfloor>fl_round q\<rfloor> < w + 1" by (simp only: floor_less_iff)
  then show "\<lfloor>fl_round (of_int w * m)\<rfloor> \<le> w" by (simp add: W_def q_def)
  show "fl_round (of_int w * m) \<le> of_int w * m + of_int w * m / 2 ^ 53"
    using hi by (simp add: W_def q_def)
qed


subsection \<open>The display size\<close>







subsection \<open>A wide image\<close>

lemma fl_round_two_fifths: "fl_round (2 / 5) = 3602879701896397 / 9007199254740992"
  by code_simp

lemma fl_round_400: "fl_round (1000 * (3602879701896397 / 9007199254740992)) = 400"
  by code_simp

lemma fl_round_fixed: "fl_round (3602879701896397 / 9007199254740992) = 3602879701896397 / 9007199254740992"
  by code_simp

lemma get_display_size_wide: "get_display_size (400, 400) (1000, 1) = Inr (400, 0)"
proof -
  define c :: rat where "c = 3602879701896397 / 9007199254740992"
  have c: "1 / 2 ^ 53 \<le> c" "c \<le> 1" by (simp_all add: c_def)
  have d1: "int_truediv 400 1000 = Inr c"
    using truediv_facts(1)[of 400 1000] by (simp add: fl_round_two_fifths c_def)
  have d2: "int_truediv 400 1 = Inr 400"
    using truediv_facts(1)[of 400 1] fl_round_int[of 400] by simp
  have r: "py_min3 c 400 = PyFloat c"
    using c by (simp add: py_min3_def)
  have s1: "int_of_scaled 1000 (PyFloat c) = Inr 400"
    using scaled_float(1)[of 1000 c] c fl_round_400 by (simp add: c_def)
  have fc: "\<lfloor>c\<rfloor> = 0" by (simp add: floor_eq_iff c_def)
  have s2: "int_of_scaled 1 (PyFloat c) = Inr 0"
    using scaled_float(1)[of 1 c] c fl_round_fixed fc by (simp add: c_def)
  show ?thesis
    using d1 d2 r s1 s2 by (simp add: get_display_size_def pane_bound_def)
qed

lemma get_display_size_wide_Suc: "get_display_size (400, 400) (1000, Suc 0) = Inr (400, 0)"
  using get_display_size_wide by simp

lemma on_select_listed0: "on_select world0 listed0 = (None, loaded0)"
  by (simp add: on_select_def listed0_def entries0_def loaded0_def viewer0_def init_viewer_def zip0_def
      photo0_def world0_def members0_def get_display_size_wide_Suc Let_def)

lemma is_image_name_samples:
  "is_image_name ''x.PNG''" "\<not> is_image_name ''readme.txt''" "is_image_name ''y.jpeg''"
  by (simp_all add: is_image_name_def lower_def lower_char_def suffix_to_prefix)


lemma scan_tree0: "scan_walk (os_walk ''d'' tree0) [] = [''d/a.UCP'', ''d/sub/c.ucp'']"
  by (simp add: tree0_def os_path_join_def endswith_def lower_def lower_char_def)

text \<open>
  The products are float products: for an image of 49 by 49 pixels in a frame of 1 by 1
  the exact value of \<^verbatim>\<open>w * (max_w / w)\<close> is 1, the float product is just below 1, and
  the result is \<open>(0, 0)\<close>.
\<close>

lemma fl_round_one_49th: "fl_round (1 / 49) = 5882252574524729 / 288230376151711744"
  by code_simp

lemma fl_round_49_times: "fl_round (49 * (5882252574524729 / 288230376151711744)) =
    9007199254740991 / 9007199254740992"
  by code_simp

lemma get_display_size_below_exact: "get_display_size (1, 1) (49, 49) = Inr (0, 0)"
proof -
  define c :: rat where "c = 5882252574524729 / 288230376151711744"
  have c: "1 / 2 ^ 53 \<le> c" "c \<le> 1" by (simp_all add: c_def)
  have d: "int_truediv 1 49 = Inr c"
    using truediv_facts(1)[of 1 49] by (simp add: fl_round_one_49th c_def)
  have r: "py_min3 c c = PyFloat c"
    using c by (simp add: py_min3_def)
  have p: "fl_round (49 * c) = 9007199254740991 / 9007199254740992"
    unfolding c_def by (rule fl_round_49_times)
  have f: "\<lfloor>(9007199254740991 :: rat) / 9007199254740992\<rfloor> = 0"
    by (simp add: floor_eq_iff)
  have "int_of_scaled 49 (PyFloat c) = Inr \<lfloor>fl_round (49 * c)\<rfloor>"
    using scaled_float(1)[of 49 c] c by simp
  then have s: "int_of_scaled 49 (PyFloat c) = Inr 0"
    by (simp only: p f)
  show ?thesis
    using d r s by (simp add: get_display_size_def pane_bound_def)
qed

subsection \<open>Selecting an entry\<close>

text \<open>
  Claim C10. \<^verbatim>\<open>get_display_size\<close> can return a dimension of 0: for an image of 1000 by 1
  pixels in a frame of 400 by 400 it returns \<open>(400, 0)\<close>. Every size that
  \<^verbatim>\<open>on_select\<close> passes to \<^verbatim>\<open>resize\<close> has both dimensions at least 1.
\<close>

theorem on_select_resize_C10:
  "get_display_size (400, 400) (1000, 1) = Inr (400, 0) \<and>
   (\<exists>new. resize_calls (snd (on_select env s)) = resize_calls s @ new \<and>
           (\<forall>sz \<in> set new. 1 \<le> fst sz \<and> 1 \<le> snd sz))"
proof
  show "get_display_size (400, 400) (1000, 1) = Inr (400, 0)"
    by (rule get_display_size_wide)
  show "\<exists>new. resize_calls (snd (on_select env s)) = resize_calls s @ new \<and>
           (\<forall>sz \<in> set new. 1 \<le> fst sz \<and> 1 \<le> snd sz)"
    by (auto simp: on_select_def Let_def split: list.splits option.splits sum.splits prod.splits)
qed

theorem on_select_resize_C10_witness:
  "resize_calls (snd (on_select world0 listed0)) = [(400, 1)]"
  using on_select_resize_C10 [of world0 listed0]
  by (simp add: on_select_listed0 loaded0_def)



subsection \<open>Opening archives\<close>

lemma load_archives_frame:
  "dialogs (snd (load_archives env paths s)) = dialogs s"
  "listbox (snd (load_archives env paths s)) = listbox s"
  by (induction paths arbitrary: s) (simp_all add: Let_def split: sum.splits)

lemma load_archives_skip:
  "zipfile_open env bad = Inl BadZipFile \<Longrightarrow>
   load_archives env (xs @ bad # ys) s = load_archives env (xs @ ys) s"
  by (induction xs arbitrary: s) (simp_all add: Let_def split: sum.splits)

lemma load_archives_entries:
  assumes "\<forall>p \<in> set paths. \<forall>e. zipfile_open env p = Inl e \<longrightarrow> e = BadZipFile"
  shows "fst (load_archives env paths s) = None \<and>
         map entry_names (entries (snd (load_archives env paths s))) =
           map entry_names (entries s) @ concat (map (archive_listing env) paths)"
  using assms
proof (induction paths arbitrary: s)
  case Nil
  then show ?case by simp
next
  case (Cons p ps)
  show ?case
  proof (cases "zipfile_open env p")
    case (Inl e)
    with Cons.prems have "e = BadZipFile" by simp
    with Inl Cons show ?thesis by (simp add: archive_listing_def)
  next
    case (Inr arch)
    with Cons show ?thesis
      by (simp add: archive_listing_def Let_def append_entries_eq entry_names_def
          entry_name_def entry_display_def comp_def new_zip_obj_def)
  qed
qed

text \<open>
  Claim C5, amended. For a non-empty path given to \<^verbatim>\<open>open_ucp\<close>: when opening it
  raises BadZipFile, the error box is shown and nothing else changes, the entry list
  included; when opening it raises any other exception, that exception leaves
  \<^verbatim>\<open>open_ucp\<close>, no box is shown and nothing changes; when it opens as a zip container,
  no box is shown and the entry list is rebuilt from the image names of that archive.
\<close>

theorem open_ucp_zip_check_C5:
  assumes "p \<noteq> []"
  shows "(zipfile_open env p = Inl BadZipFile \<longrightarrow>
            open_ucp env s (Some p) =
              (None, s\<lparr>dialogs := dialogs s @
                 [ShowError ''Invalid File'' ''Selected file is not a valid UCP archive.'']\<rparr>)
            \<and> entries (snd (open_ucp env s (Some p))) = entries s) \<and>
         (\<forall>e. zipfile_open env p = Inl e \<and> e \<noteq> BadZipFile \<longrightarrow>
            open_ucp env s (Some p) = (Some e, s)) \<and>
         (\<forall>arch. zipfile_open env p = Inr arch \<longrightarrow>
            dialogs (snd (open_ucp env s (Some p))) = dialogs s \<and>
            entries (snd (open_ucp env s (Some p))) =
              map (\<lambda>name. (new_zip_obj env s arch, name, basename p @ ''::'' @ name))
                (filter is_image_name (fst arch)))"
  using assms
  by (simp add: open_ucp_def Let_def populate_listbox_frame append_entries_eq new_zip_obj_def)

theorem open_ucp_zip_check_C5_witness:
  "open_ucp world0 loaded0 (Some ''d/sub/c.ucp'') =
     (None, loaded0\<lparr>dialogs :=
        [ShowError ''Invalid File'' ''Selected file is not a valid UCP archive.'']\<rparr>) \<and>
   open_ucp world0 loaded0 (Some ''d'') = (Some IsADirectoryError, loaded0) \<and>
   dialogs (snd (open_ucp world0 viewer0 (Some ''d/a.UCP''))) = [] \<and>
   entries (snd (open_ucp world0 viewer0 (Some ''d/a.UCP''))) = entries0"
  using open_ucp_zip_check_C5 [of "''d/sub/c.ucp''" world0 loaded0]
    open_ucp_zip_check_C5 [of "''d''" world0 loaded0]
    open_ucp_zip_check_C5 [of "''d/a.UCP''" world0 viewer0]
  by (simp add: world0_def loaded0_def listed0_def viewer0_def init_viewer_def entries0_def
      is_image_name_samples new_zip_obj_def zip0_def basename_def)

text \<open>
  The claim as stated fails for a file that is no valid zip container but makes
  \<^verbatim>\<open>ZipFile\<close> raise something other than BadZipFile, such as a container of an
  unsupported version: no error is reported, the exception leaves \<^verbatim>\<open>open_ucp\<close>.
\<close>

theorem open_ucp_zip_check_C5_counterexample:
  "zipfile_open world0 ''f/v99.ucp'' = Inl NotImplementedError \<and>
   open_ucp world0 loaded0 (Some ''f/v99.ucp'') = (Some NotImplementedError, loaded0) \<and>
   dialogs (snd (open_ucp world0 loaded0 (Some ''f/v99.ucp''))) = []"
  by (simp add: open_ucp_def world0_def loaded0_def listed0_def viewer0_def init_viewer_def)

lemma file_reached_e:
  "file_reached ''e'' (Dir True [''b.txt''] []) dirpath fname \<Longrightarrow> fname = ''b.txt''"
  by (erule file_reached.cases) auto

lemma no_ucp_under_e:
  "\<not> (\<exists>dirpath fname. file_reached ''e'' (Dir True [''b.txt''] []) dirpath fname \<and>
        suffix ''.ucp'' (lower fname))"
proof
  assume "\<exists>dirpath fname. file_reached ''e'' (Dir True [''b.txt''] []) dirpath fname \<and>
        suffix ''.ucp'' (lower fname)"
  then obtain dirpath fname where
    "file_reached ''e'' (Dir True [''b.txt''] []) dirpath fname" "suffix ''.ucp'' (lower fname)"
    by blast
  then have "suffix ''.ucp'' (lower ''b.txt'')" using file_reached_e by blast
  then show False by (simp add: lower_def lower_char_def suffix_to_prefix)
qed

text \<open>
  Claim C8. When the scan finds no file whose lowered name ends with \<^verbatim>\<open>.ucp\<close> (there is
  none in the directories the walk enters), \<^verbatim>\<open>open_ucp_folder\<close> shows the information
  box and changes nothing else: the entry list and the listbox are as before.
\<close>

theorem open_ucp_folder_empty_C8:
  assumes "folder_path \<noteq> []" "walk_dir env folder_path = Some tree"
    and "\<not> (\<exists>dirpath fname. file_reached folder_path tree dirpath fname \<and> suffix ''.ucp'' (lower fname))"
  shows "open_ucp_folder env s folder_path =
           (None, s\<lparr>dialogs := dialogs s @
              [ShowInfo ''No UCP Files'' ''No UCP files found in the specified folder.'']\<rparr>) \<and>
         entries (snd (open_ucp_folder env s folder_path)) = entries s \<and>
         listbox (snd (open_ucp_folder env s folder_path)) = listbox s"
proof -
  have "set (scan_walk (os_walk folder_path tree) []) = {}"
    using assms(3) by (auto simp: scan_walk_eq dest: os_walk_sound)
  then have "scan_walk (os_walk folder_path tree) [] = []" by simp
  with assms(1,2) show ?thesis by (simp add: open_ucp_folder_def)
qed

theorem open_ucp_folder_empty_C8_witness:
  "open_ucp_folder world0 loaded0 ''e'' =
     (None, loaded0\<lparr>dialogs :=
        [ShowInfo ''No UCP Files'' ''No UCP files found in the specified folder.'']\<rparr>) \<and>
   entries (snd (open_ucp_folder world0 loaded0 ''e'')) = entries0"
  using open_ucp_folder_empty_C8 [of "''e''" world0 "Dir True [''b.txt''] []" loaded0] no_ucp_under_e
  by (simp add: world0_def loaded0_def listed0_def viewer0_def init_viewer_def entries0_def)

lemma load_archives_append:
  "load_archives env (xs @ zs) s =
     (case load_archives env xs s of
        (Some e, s1) \<Rightarrow> (Some e, s1)
      | (None, s1) \<Rightarrow> load_archives env zs s1)"
  by (induction xs arbitrary: s) (simp_all add: Let_def split: sum.splits)

lemma load_archives_abort:
  assumes "zipfile_open env bad = Inl e" "e \<noteq> BadZipFile" "fst (load_archives env xs s) = None"
  shows "load_archives env (xs @ bad # ys) s = (Some e, snd (load_archives env xs s))"
  using assms by (cases "load_archives env xs s") (simp add: load_archives_append)

lemma scan_tree_f: "scan_walk (os_walk ''f'' tree_f) [] = [''f/v99.ucp'', ''f/a.UCP'']"
  by (simp add: tree_f_def os_path_join_def endswith_def lower_def lower_char_def)

text \<open>
  Claim C9, amended. In folder mode an archive that raises BadZipFile is passed over: the
  loop over the archives, and with it the whole operation, gives the result it gives
  without that archive, and no message box is shown. An archive that raises any other
  exception ends the operation: the exception leaves \<^verbatim>\<open>open_ucp_folder\<close>, the archives
  after it are not opened, no box is shown, and the listbox is not rebuilt.
\<close>

theorem load_archives_skip_C9:
  "(zipfile_open env bad = Inl BadZipFile \<longrightarrow>
      load_archives env (xs @ bad # ys) s = load_archives env (xs @ ys) s \<and>
      (folder_path \<noteq> [] \<and> walk_dir env folder_path = Some tree \<and>
       scan_walk (os_walk folder_path tree) [] = xs @ bad # ys \<longrightarrow>
         dialogs (snd (open_ucp_folder env s folder_path)) = dialogs s \<and>
         open_ucp_folder env s folder_path =
           (case load_archives env (xs @ ys) (s\<lparr>entries := []\<rparr>) of
              (Some e, s1) \<Rightarrow> (Some e, s1)
            | (None, s1) \<Rightarrow> populate_listbox env s1))) \<and>
   (zipfile_open env bad = Inl e \<and> e \<noteq> BadZipFile \<longrightarrow>
      (fst (load_archives env xs s) = None \<longrightarrow>
         load_archives env (xs @ bad # ys) s = (Some e, snd (load_archives env xs s))) \<and>
      (folder_path \<noteq> [] \<and> walk_dir env folder_path = Some tree \<and>
       scan_walk (os_walk folder_path tree) [] = xs @ bad # ys \<and>
       fst (load_archives env xs (s\<lparr>entries := []\<rparr>)) = None \<longrightarrow>
         open_ucp_folder env s folder_path =
           (Some e, snd (load_archives env xs (s\<lparr>entries := []\<rparr>))) \<and>
         dialogs (snd (open_ucp_folder env s folder_path)) = dialogs s \<and>
         listbox (snd (open_ucp_folder env s folder_path)) = listbox s))"
proof (intro conjI impI)
  assume bad: "zipfile_open env bad = Inl BadZipFile"
  show "load_archives env (xs @ bad # ys) s = load_archives env (xs @ ys) s"
    using bad by (rule load_archives_skip)
next
  assume bad: "zipfile_open env bad = Inl BadZipFile"
    and f: "folder_path \<noteq> [] \<and> walk_dir env folder_path = Some tree \<and>
       scan_walk (os_walk folder_path tree) [] = xs @ bad # ys"
  have d: "dialogs (snd (case load_archives env (xs @ ys) (s\<lparr>entries := []\<rparr>) of
                 (Some e, s1) \<Rightarrow> (Some e, s1)
               | (None, s1) \<Rightarrow> populate_listbox env s1)) = dialogs s"
    using load_archives_frame(1)[of env "xs @ ys" "s\<lparr>entries := []\<rparr>"]
    by (auto simp: populate_listbox_frame split: prod.splits option.splits)
  have o: "open_ucp_folder env s folder_path =
           (case load_archives env (xs @ ys) (s\<lparr>entries := []\<rparr>) of
              (Some e, s1) \<Rightarrow> (Some e, s1)
            | (None, s1) \<Rightarrow> populate_listbox env s1)"
    using f load_archives_skip[OF bad] by (simp add: open_ucp_folder_def)
  show "open_ucp_folder env s folder_path =
           (case load_archives env (xs @ ys) (s\<lparr>entries := []\<rparr>) of
              (Some e, s1) \<Rightarrow> (Some e, s1)
            | (None, s1) \<Rightarrow> populate_listbox env s1)"
    by (rule o)
  show "dialogs (snd (open_ucp_folder env s folder_path)) = dialogs s"
    using o d by simp
next
  assume e: "zipfile_open env bad = Inl e \<and> e \<noteq> BadZipFile"
    and ok: "fst (load_archives env xs s) = None"
  show "load_archives env (xs @ bad # ys) s = (Some e, snd (load_archives env xs s))"
    using e ok load_archives_abort by blast
next
  assume e: "zipfile_open env bad = Inl e \<and> e \<noteq> BadZipFile"
    and f: "folder_path \<noteq> [] \<and> walk_dir env folder_path = Some tree \<and>
       scan_walk (os_walk folder_path tree) [] = xs @ bad # ys \<and>
       fst (load_archives env xs (s\<lparr>entries := []\<rparr>)) = None"
  have a: "load_archives env (xs @ bad # ys) (s\<lparr>entries := []\<rparr>) =
      (Some e, snd (load_archives env xs (s\<lparr>entries := []\<rparr>)))"
    using e f load_archives_abort by blast
  show o: "open_ucp_folder env s folder_path =
           (Some e, snd (load_archives env xs (s\<lparr>entries := []\<rparr>)))"
    using f a by (simp add: open_ucp_folder_def)
  show "dialogs (snd (open_ucp_folder env s folder_path)) = dialogs s"
    using o load_archives_frame(1)[of env xs "s\<lparr>entries := []\<rparr>"] by simp
  show "listbox (snd (open_ucp_folder env s folder_path)) = listbox s"
    using o load_archives_frame(2)[of env xs "s\<lparr>entries := []\<rparr>"] by simp
qed

theorem load_archives_skip_C9_witness:
  "load_archives world0 [''d/a.UCP'', ''d/sub/c.ucp''] viewer0 =
     load_archives world0 [''d/a.UCP''] viewer0 \<and>
   dialogs (snd (open_ucp_folder world0 viewer0 ''d'')) = [] \<and>
   load_archives world0 [''f/v99.ucp'', ''f/a.UCP''] viewer0 = (Some NotImplementedError, viewer0)"
proof -
  have bad: "zipfile_open world0 ''d/sub/c.ucp'' = Inl BadZipFile"
    by (simp add: world0_def)
  have wd: "walk_dir world0 ''d'' = Some tree0"
    by (simp add: world0_def)
  have sc: "scan_walk (os_walk ''d'' tree0) [] = [''d/a.UCP''] @ ''d/sub/c.ucp'' # []"
    by (simp add: scan_tree0)
  note t = load_archives_skip_C9 [of world0 "''d/sub/c.ucp''" "[''d/a.UCP'']" "[]" viewer0 "''d''" tree0
      NotImplementedError]
  from t bad have "load_archives world0 ([''d/a.UCP''] @ ''d/sub/c.ucp'' # []) viewer0 =
      load_archives world0 ([''d/a.UCP''] @ []) viewer0"
    by blast
  moreover from t bad wd sc have "dialogs (snd (open_ucp_folder world0 viewer0 ''d'')) = dialogs viewer0"
    by blast
  moreover have "load_archives world0 ([] @ ''f/v99.ucp'' # [''f/a.UCP'']) viewer0 =
      (Some NotImplementedError, snd (load_archives world0 [] viewer0))"
  proof -
    have v: "zipfile_open world0 ''f/v99.ucp'' = Inl NotImplementedError \<and> NotImplementedError \<noteq> BadZipFile"
      by (simp add: world0_def)
    have n: "fst (load_archives world0 [] viewer0) = None" by simp
    from load_archives_skip_C9 [of world0 "''f/v99.ucp''" "[]" "[''f/a.UCP'']" viewer0 "''f''" tree_f
      NotImplementedError] v n show ?thesis by blast
  qed
  ultimately show ?thesis by (simp add: viewer0_def init_viewer_def)
qed

text \<open>
  The claim as stated fails for an archive that fails to open with another exception: in
  the folder \<^verbatim>\<open>f\<close> the first archive found raises NotImplementedError, the operation
  ends there with the entry list emptied, and the good archive after it is never opened.
\<close>

theorem load_archives_skip_C9_counterexample:
  "zipfile_open world0 ''f/v99.ucp'' = Inl NotImplementedError \<and>
   zipfile_open world0 ''f/a.UCP'' = Inr ([''x.PNG''], members0) \<and>
   scan_walk (os_walk ''f'' tree_f) [] = [''f/v99.ucp'', ''f/a.UCP''] \<and>
   open_ucp_folder world0 loaded0 ''f'' = (Some NotImplementedError, loaded0\<lparr>entries := []\<rparr>)"
  by (simp add: scan_tree_f open_ucp_folder_def world0_def loaded0_def listed0_def viewer0_def
      init_viewer_def)

text \<open>
  Claim C2. After \<^verbatim>\<open>open_ucp\<close> on an archive that opens, the entries are exactly the
  names of its name list whose lowered form ends with \<^verbatim>\<open>.jpg\<close>, \<^verbatim>\<open>.jpeg\<close>,
  \<^verbatim>\<open>.gif\<close> or \<^verbatim>\<open>.png\<close>, in the order of the name list, each with the archive object
  and the display name made of the base name of the path, \<^verbatim>\<open>::\<close> and the name. After
  \<^verbatim>\<open>open_ucp_folder\<close>, when every archive found opens or raises BadZipFile, the names
  and display names of the entries are those of the archives found, archive after archive.
\<close>

theorem entries_listing_C2:
  "(p \<noteq> [] \<and> zipfile_open env p = Inr arch \<longrightarrow>
      entries (snd (open_ucp env s (Some p))) =
        map (\<lambda>name. (new_zip_obj env s arch, name, basename p @ ''::'' @ name))
          (filter is_image_name (fst arch))) \<and>
   (folder_path \<noteq> [] \<and> walk_dir env folder_path = Some tree \<and>
    scan_walk (os_walk folder_path tree) [] \<noteq> [] \<and>
    (\<forall>path \<in> set (scan_walk (os_walk folder_path tree) []).
        \<forall>e. zipfile_open env path = Inl e \<longrightarrow> e = BadZipFile) \<longrightarrow>
      map entry_names (entries (snd (open_ucp_folder env s folder_path))) =
        concat (map (archive_listing env) (scan_walk (os_walk folder_path tree) [])))"
proof (intro conjI impI)
  assume "p \<noteq> [] \<and> zipfile_open env p = Inr arch"
  then show "entries (snd (open_ucp env s (Some p))) =
        map (\<lambda>name. (new_zip_obj env s arch, name, basename p @ ''::'' @ name))
          (filter is_image_name (fst arch))"
    by (simp add: open_ucp_def Let_def populate_listbox_frame append_entries_eq new_zip_obj_def)
next
  assume a: "folder_path \<noteq> [] \<and> walk_dir env folder_path = Some tree \<and>
    scan_walk (os_walk folder_path tree) [] \<noteq> [] \<and>
    (\<forall>path \<in> set (scan_walk (os_walk folder_path tree) []).
        \<forall>e. zipfile_open env path = Inl e \<longrightarrow> e = BadZipFile)"
  define archives where "archives = scan_walk (os_walk folder_path tree) []"
  define r where "r = load_archives env archives (s\<lparr>entries := []\<rparr>)"
  have l: "fst r = None"
    "map entry_names (entries (snd r)) = concat (map (archive_listing env) archives)"
    using load_archives_entries[of archives env "s\<lparr>entries := []\<rparr>"] a
    by (simp_all add: r_def archives_def)
  have "open_ucp_folder env s folder_path = populate_listbox env (snd r)"
    using a l(1) by (cases r) (simp add: open_ucp_folder_def r_def[symmetric] archives_def[symmetric])
  then show "map entry_names (entries (snd (open_ucp_folder env s folder_path))) =
        concat (map (archive_listing env) (scan_walk (os_walk folder_path tree) []))"
    using l(2) by (simp add: populate_listbox_frame archives_def)
qed

theorem entries_listing_C2_witness:
  "entries (snd (open_ucp world0 viewer0 (Some ''d/a.UCP''))) = entries0 \<and>
   map entry_names (entries (snd (open_ucp_folder world0 viewer0 ''d''))) =
     [(''x.PNG'', ''a.UCP::x.PNG''), (''y.jpeg'', ''a.UCP::y.jpeg'')]"
  using entries_listing_C2 [of "''d/a.UCP''" world0 "([''x.PNG'', ''readme.txt'', ''y.jpeg''], members0)"
      viewer0 "''d''" tree0]
    scan_tree0
  by (simp add: world0_def viewer0_def init_viewer_def entries0_def archive_listing_def
      is_image_name_samples new_zip_obj_def zip0_def basename_def)

subsection \<open>The listbox after an open operation\<close>









text \<open>
  The image cache is never cleared and is keyed by the id of an archive object that the
  next open operation drops. When a later archive object gets the same id, the cache
  answers for it: after \<^verbatim>\<open>d/a.UCP\<close> and then \<^verbatim>\<open>k.ucp\<close>, with nothing raised, the list
  shows \<^verbatim>\<open>k.ucp::x.PNG\<close>, whose member holds the tall image, and the label shows the
  wide image of the first archive. The amended claim C7 says nothing for this case.
\<close>

lemma stale_cache_example:
  "fst (open_ucp world_reuse (snd (open_ucp world_reuse viewer0 (Some ''d/a.UCP''))) (Some ''k.ucp'')) = None \<and>
   map entry_display (entries (snd (open_ucp world_reuse
       (snd (open_ucp world_reuse viewer0 (Some ''d/a.UCP''))) (Some ''k.ucp'')))) = [''k.ucp::x.PNG''] \<and>
   map_option (\<lambda>ph. img_pixels (photo_src ph)) (image_label (snd (open_ucp world_reuse
       (snd (open_ucp world_reuse viewer0 (Some ''d/a.UCP''))) (Some ''k.ucp'')))) = Some ''wide'' \<and>
   members1 ''x.PNG'' = Inr ''tall''"
  by (simp add: open_ucp_def world_reuse_def world0_def new_zip_obj_def append_entries_eq
      is_image_name_samples basename_def populate_listbox_def insert_displays_eq entry_display_def
      selection_set_def viewer0_def init_viewer_def Let_def on_select_def members0_def members1_def
      get_display_size_wide_Suc)

subsection \<open>The command line\<close>

text \<open>
  Claim C6, amended. With a non-empty folder argument the program runs
  \<^verbatim>\<open>open_ucp_folder\<close> on it, whatever the file argument; with no folder argument or an
  empty one, and a non-empty file argument, it runs \<^verbatim>\<open>open_ucp\<close> on the file; with
  neither it opens nothing.
\<close>

theorem main_modes_C6:
  "(args_folder args = Some f \<and> f \<noteq> [] \<longrightarrow>
      main env frame args = open_ucp_folder env (init_viewer frame) f) \<and>
   ((args_folder args = None \<or> args_folder args = Some []) \<and> args_file args = Some p \<and> p \<noteq> [] \<longrightarrow>
      main env frame args = open_ucp env (init_viewer frame) (Some p)) \<and>
   ((args_folder args = None \<or> args_folder args = Some []) \<and>
    (args_file args = None \<or> args_file args = Some []) \<longrightarrow>
      main env frame args = (None, init_viewer frame))"
  by (auto simp: main_def truthy_def Let_def)

theorem main_modes_C6_witness:
  "main world0 (400, 400) \<lparr>args_folder = Some ''d'', args_file = Some ''j.ucp''\<rparr> =
     open_ucp_folder world0 (init_viewer (400, 400)) ''d'' \<and>
   main world0 (400, 400) \<lparr>args_folder = None, args_file = Some ''j.ucp''\<rparr> =
     open_ucp world0 (init_viewer (400, 400)) (Some ''j.ucp'') \<and>
   main world0 (400, 400) \<lparr>args_folder = None, args_file = None\<rparr> = (None, init_viewer (400, 400))"
  using main_modes_C6 [of "\<lparr>args_folder = Some ''d'', args_file = Some ''j.ucp''\<rparr>" "''d''" world0 "(400, 400)" "''j.ucp''"]
    main_modes_C6 [of "\<lparr>args_folder = None, args_file = Some ''j.ucp''\<rparr>" "''d''" world0 "(400, 400)" "''j.ucp''"]
    main_modes_C6 [of "\<lparr>args_folder = None, args_file = None\<rparr>" "''d''" world0 "(400, 400)" "''j.ucp''"]
  by simp

text \<open>
  The claim as stated fails for an empty folder argument given together with a file: the
  file is opened (here it is no zip container, and the error box appears), while folder
  mode on the empty path would have done nothing.
\<close>

theorem main_modes_C6_counterexample:
  "main world0 (400, 400) args0 = open_ucp world0 (init_viewer (400, 400)) (Some ''d/sub/c.ucp'') \<and>
   dialogs (snd (main world0 (400, 400) args0)) =
     [ShowError ''Invalid File'' ''Selected file is not a valid UCP archive.''] \<and>
   main world0 (400, 400) args0 \<noteq> open_ucp_folder world0 (init_viewer (400, 400)) []"
  by (simp add: main_def truthy_def args0_def open_ucp_def world0_def open_ucp_folder_def
      init_viewer_def Let_def)

end
